theory Spec2Isabelle
  imports Main
begin

section \<open>Calendar dates\<close>

text \<open>
  \<^verbatim>\<open>tours.py\<close> works on \<^verbatim>\<open>datetime\<close> objects that come from
  \<^verbatim>\<open>strptime(s, "%Y-%m-%d")\<close>, from \<^verbatim>\<open>datetime(y, m, 1)\<close> and from adding whole days:
  their time of day is always midnight, so a value is its year, month and day.
\<close>

datatype datetime = Datetime (year: nat) (month: nat) (day: nat)

definition is_leap :: "nat \<Rightarrow> bool" where
  "is_leap y = (y mod 4 = 0 \<and> (y mod 100 \<noteq> 0 \<or> y mod 400 = 0))"

definition days_in_month :: "nat \<Rightarrow> nat \<Rightarrow> nat" where
  "days_in_month y m =
     (if m = 2 then (if is_leap y then 29 else 28)
      else if m = 4 \<or> m = 6 \<or> m = 9 \<or> m = 11 then 30 else 31)"

text \<open>A real calendar day; the values a Python \<^verbatim>\<open>datetime\<close> can hold are those of years 1 to 9999.\<close>

definition cal_ok :: "datetime \<Rightarrow> bool" where
  "cal_ok d = (1 \<le> month d \<and> month d \<le> 12 \<and>
               1 \<le> day d \<and> day d \<le> days_in_month (year d) (month d))"

definition date_ok :: "datetime \<Rightarrow> bool" where
  "date_ok d = (1 \<le> year d \<and> year d \<le> 9999 \<and> cal_ok d)"

text \<open>Comparison of two datetimes (\<^verbatim>\<open><=\<close>, \<^verbatim>\<open><\<close>): field by field, year first.\<close>

definition date_le :: "datetime \<Rightarrow> datetime \<Rightarrow> bool" where
  "date_le a b = (year a < year b \<or> (year a = year b \<and>
                   (month a < month b \<or> (month a = month b \<and> day a \<le> day b))))"

definition date_less :: "datetime \<Rightarrow> datetime \<Rightarrow> bool" where
  "date_less a b = (year a < year b \<or> (year a = year b \<and>
                     (month a < month b \<or> (month a = month b \<and> day a < day b))))"

text \<open>
  The proleptic Gregorian ordinal (\<^verbatim>\<open>date.toordinal()\<close>, day 1 is 0001-01-01), by
  CPython's formula: days before the year, days before the month, day of the month.
\<close>

definition days_before_year :: "nat \<Rightarrow> int" where
  "days_before_year y =
     (let p = int y - 1 in p * 365 + p div 4 - p div 100 + p div 400)"

definition days_before_month :: "nat \<Rightarrow> nat \<Rightarrow> int" where
  "days_before_month y m =
     int ([0, 0, 31, 59, 90, 120, 151, 181, 212, 243, 273, 304, 334] ! (if m \<le> 12 then m else 0))
       + (if 2 < m \<and> is_leap y then 1 else 0)"

definition toordinal :: "datetime \<Rightarrow> int" where
  "toordinal d = days_before_year (year d) + days_before_month (year d) (month d) + int (day d)"

text \<open>\<^verbatim>\<open>d + timedelta(days=1)\<close>: the next calendar day.\<close>

definition next_day :: "datetime \<Rightarrow> datetime" where
  "next_day d =
     (if day d < days_in_month (year d) (month d) then Datetime (year d) (month d) (day d + 1)
      else if month d < 12 then Datetime (year d) (month d + 1) 1
      else Datetime (year d + 1) 1 1)"

text \<open>\<^verbatim>\<open>d + timedelta(days=n)\<close> for \<open>n \<ge> 0\<close>.\<close>

primrec add_days :: "datetime \<Rightarrow> nat \<Rightarrow> datetime" where
  "add_days d 0 = d"
| "add_days d (Suc n) = next_day (add_days d n)"

text \<open>\<^verbatim>\<open>(b - a).days\<close>: the difference of two midnights is a whole number of days.\<close>

definition days_between :: "datetime \<Rightarrow> datetime \<Rightarrow> int" where
  "days_between a b = toordinal b - toordinal a"

text \<open>
  \<^verbatim>\<open>rrule.rrule(rrule.MONTHLY, dtstart=cur, until=until)\<close> for a \<open>cur\<close> on the first of a
  month: \<open>cur\<close>, then the first of each following month, as long as the date is not after
  \<open>until\<close> (the bound is inclusive).
\<close>

definition next_month :: "datetime \<Rightarrow> datetime" where
  "next_month d = (if 12 \<le> month d then Datetime (year d + 1) 1 (day d)
                   else Datetime (year d) (month d + 1) (day d))"

function rrule_monthly :: "datetime \<Rightarrow> datetime \<Rightarrow> datetime list" where
  "rrule_monthly cur until =
     (if date_le cur until then cur # rrule_monthly (next_month cur) until else [])"
  by pat_completeness auto
termination
  by (relation "measures [\<lambda>(c, u). year u + 1 - year c, \<lambda>(c, u). 13 - month c]")
     (auto simp: next_month_def date_le_def)

declare rrule_monthly.simps [simp del]

section \<open>Formatting\<close>

definition digit_char :: "nat \<Rightarrow> char" where
  "digit_char n = ''0123456789'' ! (n mod 10)"

text \<open>\<^verbatim>\<open>str(n)\<close> for a non-negative integer, and for any integer.\<close>

function str_nat :: "nat \<Rightarrow> string" where
  "str_nat n = (if n < 10 then [digit_char n] else str_nat (n div 10) @ [digit_char n])"
  by pat_completeness auto
termination
  by (relation "measure id") auto

declare str_nat.simps [simp del]

definition str_int :: "int \<Rightarrow> string" where
  "str_int i = (if i < 0 then CHR ''-'' # str_nat (nat (- i)) else str_nat (nat i))"

text \<open>
  \<^verbatim>\<open>datetime.strftime(d, "%Y-%m-%d")\<close> with \<^verbatim>\<open>INPUT_DATE_FORMAT\<close>: four digits of year,
  two of month, two of day, zero-padded (the documented output for years 1 to 9999).
\<close>

definition pad2 :: "nat \<Rightarrow> string" where
  "pad2 n = [digit_char (n div 10), digit_char n]"

definition pad4 :: "nat \<Rightarrow> string" where
  "pad4 n = [digit_char (n div 1000), digit_char (n div 100), digit_char (n div 10), digit_char n]"

definition strftime :: "datetime \<Rightarrow> string" where
  "strftime d = pad4 (year d) @ ''-'' @ pad2 (month d) @ ''-'' @ pad2 (day d)"

text \<open>\<^verbatim>\<open>sep.join(xs)\<close>.\<close>

fun join :: "string \<Rightarrow> string list \<Rightarrow> string" where
  "join sep [] = []"
| "join sep [x] = x"
| "join sep (x # y # ys) = x @ sep @ join sep (y # ys)"

section \<open>The upstream service\<close>

text \<open>
  A request is the URL and the query parameters handed to \<^verbatim>\<open>requests.get\<close>; the
  \<^verbatim>\<open>User-Agent\<close> header is drawn once when the module is loaded and is the same for
  every request of a run, so it is part of the service as this process sees it.
\<close>

datatype param = PInt int | PStr string

record request =
  url :: string
  params :: "(string \<times> param) list"

text \<open>
  The decoded JSON bodies, at the types of the two endpoints. A key the code subscripts
  may be missing (\<open>None\<close>): the subscript then raises \<^verbatim>\<open>KeyError\<close>. The objects keyed
  by date string and by tour id are dictionaries, looked up by key only.
\<close>

record tour_summary =
  has_reservable :: "bool option"

record date_summary =
  tour_availability_summary_view_by_tour_id :: "(string \<rightharpoonup> tour_summary) option"

record payload =
  facility_availability_summary_view_by_local_date :: "(string \<rightharpoonup> date_summary) option"
  tour_name :: "string option"

text \<open>A response: \<^verbatim>\<open>status_code\<close>, \<^verbatim>\<open>text\<close>, and the body decoded by \<^verbatim>\<open>json()\<close> (\<open>None\<close>: the text is not JSON).\<close>

record response =
  status_code :: nat
  resp_text :: string
  json :: "payload option"

type_synonym upstream = "request \<Rightarrow> response"

section \<open>Errors, output and the network log\<close>

datatype py_error =
    RuntimeError string string
  | KeyError string
  | JSONDecodeError

text \<open>
  What a run does besides returning: the requests it has sent and the lines it has printed
  on standard output, both in order. A function that raises still keeps what it has sent
  and printed, so every function returns the new \<open>world\<close> next to its result or error.
  (The \<^verbatim>\<open>LOG.debug\<close> lines go to the logger, not to standard output, and are left out.)
\<close>

record world =
  sent :: "request list"
  stdout :: "string list"

definition print :: "string \<Rightarrow> world \<Rightarrow> world" where
  "print line w = w\<lparr>stdout := stdout w @ [line]\<rparr>"

definition BASE_URL :: string where
  "BASE_URL = ''https://www.recreation.gov''"

definition AVAILABILITY_ENDPOINT :: string where
  "AVAILABILITY_ENDPOINT = ''/api/ticket/availability/facility/''"

definition MAIN_PAGE_ENDPOINT :: string where
  "MAIN_PAGE_ENDPOINT = ''/api/ticket/tour/''"

definition failedRequest :: "request \<Rightarrow> response \<Rightarrow> py_error" where
  "failedRequest rq resp =
     RuntimeError ''failedRequest''
       (''ERROR, '' @ str_nat (status_code resp) @ '' code received from '' @ url rq @ '': '' @ resp_text resp)"

definition send_request :: "upstream \<Rightarrow> string \<Rightarrow> (string \<times> param) list \<Rightarrow> world
    \<Rightarrow> world \<times> (py_error + payload)" where
  "send_request up u ps w =
     (let rq = \<lparr>url = u, params = ps\<rparr>;
          resp = up rq;
          w' = w\<lparr>sent := sent w @ [rq]\<rparr>
      in if status_code resp \<noteq> 200 then (w', Inl (failedRequest rq resp))
         else (case json resp of None \<Rightarrow> (w', Inl JSONDecodeError) | Some body \<Rightarrow> (w', Inr body)))"

section \<open>The resolver: \<^verbatim>\<open>get_tour_availabilities\<close>\<close>

text \<open>
  A Python \<^verbatim>\<open>dict\<close> whose iteration order matters (\<^verbatim>\<open>availabilities\<close>) is a list of
  pairs in insertion order with distinct keys. \<^verbatim>\<open>d[k] = v\<close> replaces the value in place
  when the key is there and appends the pair otherwise.
\<close>

type_synonym availabilities = "(int \<times> string list) list"

fun dict_set :: "('k \<times> 'v) list \<Rightarrow> 'k \<Rightarrow> 'v \<Rightarrow> ('k \<times> 'v) list" where
  "dict_set [] k v = [(k, v)]"
| "dict_set ((k', v') # kvs) k v =
     (if k' = k then (k, v) # kvs else (k', v') # dict_set kvs k v)"

definition availability_url :: "int \<Rightarrow> string" where
  "availability_url facility_id =
     BASE_URL @ AVAILABILITY_ENDPOINT @ str_int facility_id @ ''/monthlyAvailabilitySummaryView?''"

definition month_params :: "datetime \<Rightarrow> (string \<times> param) list" where
  "month_params month_date =
     [(''year'', PInt (int (year month_date))), (''month'', PInt (int (month month_date))),
      (''inventoryBucket'', PStr ''FIT'')]"

text \<open>The loop over \<^verbatim>\<open>months\<close> (lines 63 to 72): one request each, merged into \<^verbatim>\<open>api_data\<close>.\<close>

fun fetch_months :: "upstream \<Rightarrow> int \<Rightarrow> datetime list \<Rightarrow> (string \<rightharpoonup> date_summary) \<Rightarrow> world
    \<Rightarrow> world \<times> (py_error + (string \<rightharpoonup> date_summary))" where
  "fetch_months up facility_id [] api_data w = (w, Inr api_data)"
| "fetch_months up facility_id (month_date # months) api_data w =
     (case send_request up (availability_url facility_id) (month_params month_date) w of
        (w', Inl e) \<Rightarrow> (w', Inl e)
      | (w', Inr resp) \<Rightarrow>
          (case facility_availability_summary_view_by_local_date resp of
             None \<Rightarrow> (w', Inl (KeyError ''facility_availability_summary_view_by_local_date''))
           | Some by_date \<Rightarrow> fetch_months up facility_id months (api_data ++ by_date) w'))"

text \<open>\<^verbatim>\<open>desired_dates\<close> (line 74); \<^verbatim>\<open>range(n)\<close> is empty when \<open>n \<le> 0\<close>.\<close>

definition desired_dates :: "datetime \<Rightarrow> datetime \<Rightarrow> datetime list" where
  "desired_dates start_date end_date =
     map (add_days start_date) [0..<nat (days_between start_date end_date + 1)]"

definition not_found_line :: "int \<Rightarrow> int \<Rightarrow> string \<Rightarrow> string" where
  "not_found_line tour_id facility_id date_formatted =
     ''Tour id '' @ str_int tour_id @ '' not found in facility with id '' @ str_int facility_id
       @ '' on '' @ date_formatted"

text \<open>The inner loop over \<^verbatim>\<open>desired_dates\<close> for one tour (lines 80 to 86).\<close>

fun scan_dates :: "(string \<rightharpoonup> date_summary) \<Rightarrow> int \<Rightarrow> int \<Rightarrow> datetime list \<Rightarrow> availabilities
    \<Rightarrow> world \<Rightarrow> world \<times> (py_error + availabilities)" where
  "scan_dates api_data facility_id tour_id [] av w = (w, Inr av)"
| "scan_dates api_data facility_id tour_id (date # dates) av w =
     (let date_formatted = strftime date in
      case api_data date_formatted of
        None \<Rightarrow> (w, Inl (KeyError date_formatted))
      | Some entry \<Rightarrow>
          (case tour_availability_summary_view_by_tour_id entry of
             None \<Rightarrow> (w, Inl (KeyError ''tour_availability_summary_view_by_tour_id''))
           | Some by_tour \<Rightarrow>
               (case by_tour (str_int tour_id) of
                  None \<Rightarrow>
                    scan_dates api_data facility_id tour_id dates av
                      (print (not_found_line tour_id facility_id date_formatted) w)
                | Some summary \<Rightarrow>
                    (case has_reservable summary of
                       None \<Rightarrow> (w, Inl (KeyError ''has_reservable''))
                     | Some True \<Rightarrow>
                         (case map_of av tour_id of
                            None \<Rightarrow> (w, Inl (KeyError (str_int tour_id)))
                          | Some found \<Rightarrow>
                              scan_dates api_data facility_id tour_id dates
                                (dict_set av tour_id (found @ [date_formatted])) w)
                     | Some False \<Rightarrow> scan_dates api_data facility_id tour_id dates av w))))"

text \<open>The outer loop over \<^verbatim>\<open>tour_ids\<close> (lines 78 to 86).\<close>

fun collapse :: "(string \<rightharpoonup> date_summary) \<Rightarrow> int \<Rightarrow> datetime list \<Rightarrow> int list \<Rightarrow> availabilities
    \<Rightarrow> world \<Rightarrow> world \<times> (py_error + availabilities)" where
  "collapse api_data facility_id dates [] av w = (w, Inr av)"
| "collapse api_data facility_id dates (tour_id # tour_ids) av w =
     (case scan_dates api_data facility_id tour_id dates (dict_set av tour_id []) w of
        (w', Inl e) \<Rightarrow> (w', Inl e)
      | (w', Inr av') \<Rightarrow> collapse api_data facility_id dates tour_ids av' w')"

definition months_of :: "datetime \<Rightarrow> datetime \<Rightarrow> datetime list" where
  "months_of start_date end_date =
     (let start_of_month = Datetime (year start_date) (month start_date) 1
      in rrule_monthly start_of_month end_date)"

definition get_tour_availabilities :: "upstream \<Rightarrow> int \<Rightarrow> int list \<Rightarrow> datetime \<Rightarrow> datetime
    \<Rightarrow> world \<Rightarrow> world \<times> (py_error + availabilities)" where
  "get_tour_availabilities up facility_id tour_ids start_date end_date w =
     (let months = months_of start_date end_date in
      case fetch_months up facility_id months Map.empty w of
        (w', Inl e) \<Rightarrow> (w', Inl e)
      | (w', Inr api_data) \<Rightarrow>
          collapse api_data facility_id (desired_dates start_date end_date) tour_ids [] w')"

section \<open>The renderer and the program\<close>

definition get_tour_name :: "upstream \<Rightarrow> int \<Rightarrow> world \<Rightarrow> world \<times> (py_error + string)" where
  "get_tour_name up tour_id w =
     (case send_request up (BASE_URL @ MAIN_PAGE_ENDPOINT @ str_int tour_id) [] w of
        (w', Inl e) \<Rightarrow> (w', Inl e)
      | (w', Inr resp) \<Rightarrow>
          (case tour_name resp of
             None \<Rightarrow> (w', Inl (KeyError ''tour_name''))
           | Some name \<Rightarrow> (w', Inr name)))"

definition report_line :: "string \<Rightarrow> string list \<Rightarrow> string" where
  "report_line name dates =
     (if dates = [] then name @ '': No availabilities :(''
      else name @ '': Available on the following date(s):'' @ [CHR 0x0A] @ join '', '' dates)"

fun print_human_readable :: "upstream \<Rightarrow> availabilities \<Rightarrow> world \<Rightarrow> world \<times> (py_error + unit)" where
  "print_human_readable up [] w = (w, Inr ())"
| "print_human_readable up ((tour_id, dates) # rest) w =
     (case get_tour_name up tour_id w of
        (w', Inl e) \<Rightarrow> (w', Inl e)
      | (w', Inr name) \<Rightarrow> print_human_readable up rest (print (report_line name dates) w'))"

text \<open>\<^verbatim>\<open>any(availabilities.values())\<close>: some list is not empty.\<close>

definition any_values :: "availabilities \<Rightarrow> bool" where
  "any_values av = list_ex (\<lambda>(tour_id, dates). dates \<noteq> []) av"

definition main :: "upstream \<Rightarrow> int \<Rightarrow> int list \<Rightarrow> datetime \<Rightarrow> datetime \<Rightarrow> world
    \<Rightarrow> world \<times> (py_error + int)" where
  "main up facility tours start_date end_date w =
     (case get_tour_availabilities up facility tours start_date end_date w of
        (w1, Inl e) \<Rightarrow> (w1, Inl e)
      | (w1, Inr av) \<Rightarrow>
          (case print_human_readable up av w1 of
             (w2, Inl e) \<Rightarrow> (w2, Inl e)
           | (w2, Inr u) \<Rightarrow> (w2, Inr (if any_values av then 0 else 1))))"

text \<open>
  The \<^verbatim>\<open>__main__\<close> block after argument parsing (lines 158 to 164): \<^verbatim>\<open>sys.exit(code)\<close>
  ends the process with \<open>code\<close>; any other exception prints a line and is raised again,
  so it reaches the interpreter uncaught. An uncaught exception ends a Python process
  with status 1.
\<close>

datatype outcome = SystemExit int | Uncaught py_error

definition script :: "upstream \<Rightarrow> int \<Rightarrow> int list \<Rightarrow> datetime \<Rightarrow> datetime \<Rightarrow> world
    \<Rightarrow> world \<times> outcome" where
  "script up facility tours start_date end_date w =
     (case main up facility tours start_date end_date w of
        (w', Inr code) \<Rightarrow> (w', SystemExit code)
      | (w', Inl e) \<Rightarrow> (print ''Something went wrong'' w', Uncaught e))"

fun exit_status :: "outcome \<Rightarrow> int" where
  "exit_status (SystemExit code) = code"
| "exit_status (Uncaught e) = 1"

section \<open>Notions used to state the properties\<close>

text \<open>
  What the snapshot says about a tour on a date string, read off the same way the loop
  body reads it: the tour is listed with a true flag; the tour is not listed; the lookups
  of the loop body raise no \<^verbatim>\<open>KeyError\<close>.
\<close>

definition is_reservable :: "(string \<rightharpoonup> date_summary) \<Rightarrow> int \<Rightarrow> string \<Rightarrow> bool" where
  "is_reservable api_data tour_id date_formatted =
     (case api_data date_formatted of
        None \<Rightarrow> False
      | Some entry \<Rightarrow>
          (case tour_availability_summary_view_by_tour_id entry of
             None \<Rightarrow> False
           | Some by_tour \<Rightarrow>
               (case by_tour (str_int tour_id) of
                  None \<Rightarrow> False
                | Some summary \<Rightarrow> has_reservable summary = Some True)))"

definition is_listed_false :: "(string \<rightharpoonup> date_summary) \<Rightarrow> int \<Rightarrow> string \<Rightarrow> bool" where
  "is_listed_false api_data tour_id date_formatted =
     (case api_data date_formatted of
        None \<Rightarrow> False
      | Some entry \<Rightarrow>
          (case tour_availability_summary_view_by_tour_id entry of
             None \<Rightarrow> False
           | Some by_tour \<Rightarrow>
               (case by_tour (str_int tour_id) of
                  None \<Rightarrow> False
                | Some summary \<Rightarrow> has_reservable summary = Some False)))"

definition is_absent :: "(string \<rightharpoonup> date_summary) \<Rightarrow> int \<Rightarrow> string \<Rightarrow> bool" where
  "is_absent api_data tour_id date_formatted =
     (case api_data date_formatted of
        None \<Rightarrow> False
      | Some entry \<Rightarrow>
          (case tour_availability_summary_view_by_tour_id entry of
             None \<Rightarrow> False
           | Some by_tour \<Rightarrow> by_tour (str_int tour_id) = None))"

definition readable :: "(string \<rightharpoonup> date_summary) \<Rightarrow> int \<Rightarrow> string \<Rightarrow> bool" where
  "readable api_data tour_id date_formatted =
     (is_reservable api_data tour_id date_formatted \<or> is_listed_false api_data tour_id date_formatted
      \<or> is_absent api_data tour_id date_formatted)"

text \<open>The dates kept for a tour and the lines printed for it, as the claims describe them.\<close>

definition available_dates :: "(string \<rightharpoonup> date_summary) \<Rightarrow> int \<Rightarrow> datetime list \<Rightarrow> datetime list" where
  "available_dates api_data tour_id dates =
     filter (\<lambda>d. is_reservable api_data tour_id (strftime d)) dates"

definition diagnostics :: "(string \<rightharpoonup> date_summary) \<Rightarrow> int \<Rightarrow> int \<Rightarrow> datetime list \<Rightarrow> string list" where
  "diagnostics api_data facility_id tour_id dates =
     map (\<lambda>d. not_found_line tour_id facility_id (strftime d))
       (filter (\<lambda>d. is_absent api_data tour_id (strftime d)) dates)"

text \<open>The monthly query for a month, and whether the service answers it usably.\<close>

definition month_request :: "int \<Rightarrow> datetime \<Rightarrow> request" where
  "month_request facility_id month_date =
     \<lparr>url = availability_url facility_id, params = month_params month_date\<rparr>"

definition month_query_ok :: "upstream \<Rightarrow> int \<Rightarrow> datetime \<Rightarrow> bool" where
  "month_query_ok up facility_id month_date =
     (let resp = up (month_request facility_id month_date) in
      status_code resp = 200 \<and>
      (case json resp of
         None \<Rightarrow> False
       | Some body \<Rightarrow> facility_availability_summary_view_by_local_date body \<noteq> None))"

definition tour_request :: "int \<Rightarrow> request" where
  "tour_request tour_id = \<lparr>url = BASE_URL @ MAIN_PAGE_ENDPOINT @ str_int tour_id, params = []\<rparr>"

definition year_month :: "datetime \<Rightarrow> nat \<times> nat" where
  "year_month d = (year d, month d)"

definition month_index :: "datetime \<Rightarrow> nat" where
  "month_index d = 12 * year d + (month d - 1)"

definition first_of_index :: "nat \<Rightarrow> datetime" where
  "first_of_index i = Datetime (i div 12) (i mod 12 + 1) 1"

text \<open>Python's comparison of two strings: by code point, a proper prefix first.\<close>

fun str_less :: "string \<Rightarrow> string \<Rightarrow> bool" where
  "str_less [] [] = False"
| "str_less [] (y # ys) = True"
| "str_less (x # xs) [] = False"
| "str_less (x # xs) (y # ys) =
     ((of_char x :: nat) < of_char y \<or> (x = y \<and> str_less xs ys))"


definition display_name :: "upstream \<Rightarrow> int \<Rightarrow> string" where
  "display_name up tour_id =
     (case json (up (tour_request tour_id)) of
        None \<Rightarrow> []
      | Some body \<Rightarrow> (case tour_name body of None \<Rightarrow> [] | Some name \<Rightarrow> name))"

text \<open>
  A step that sent the requests \<open>new\<close> and ended with \<open>r\<close> stops at the first failed
  request: every request but the last was answered with status 200; a result means the
  last one was too; and when the last one was not, the error is the
  \<^verbatim>\<open>RuntimeError\<close> that \<^verbatim>\<open>send_request\<close> raises for it.
\<close>

definition stops_at_failure :: "upstream \<Rightarrow> request list \<Rightarrow> py_error + 'a \<Rightarrow> bool" where
  "stops_at_failure up new r =
     ((\<forall>rq\<in>set (butlast new). status_code (up rq) = 200) \<and>
      (case r of
         Inr v \<Rightarrow> \<forall>rq\<in>set new. status_code (up rq) = 200
       | Inl e \<Rightarrow> new \<noteq> [] \<longrightarrow> status_code (up (last new)) \<noteq> 200 \<longrightarrow>
                   e = failedRequest (last new) (up (last new))))"

section \<open>An example service\<close>

text \<open>
  A small upstream used to run the program on concrete inputs. Facility 7 answers the
  monthly query for March and April 2024 and fails with status 500 for any other month;
  the snapshot has no entry for 2024-04-02. The page of tour 100 gives its name, the page
  of tour 200 fails with status 500, any other URL is not found.
\<close>

definition flag :: "bool \<Rightarrow> tour_summary" where
  "flag b = \<lparr>has_reservable = Some b\<rparr>"

definition day_entry :: "(string \<times> bool) list \<Rightarrow> date_summary" where
  "day_entry flags =
     \<lparr>tour_availability_summary_view_by_tour_id = Some (map_of (map (\<lambda>(k, b). (k, flag b)) flags))\<rparr>"

definition month_body :: "(string \<times> date_summary) list \<Rightarrow> response" where
  "month_body days =
     \<lparr>status_code = 200, resp_text = [],
      json = Some \<lparr>facility_availability_summary_view_by_local_date = Some (map_of days),
                   tour_name = None\<rparr>\<rparr>"

definition server_error :: response where
  "server_error = \<lparr>status_code = 500, resp_text = ''Internal Server Error'', json = None\<rparr>"

definition facility_7 :: upstream where
  "facility_7 rq =
     (if url rq = availability_url 7 then
        (if params rq = month_params (Datetime 2024 3 1) then
           month_body [(''2024-03-30'', day_entry [(''100'', True), (''200'', False)]),
                       (''2024-03-31'', day_entry [(''100'', True)])]
         else if params rq = month_params (Datetime 2024 4 1) then
           month_body [(''2024-04-01'', day_entry [(''100'', False), (''200'', True)])]
         else server_error)
      else if rq = tour_request 100 then
        \<lparr>status_code = 200, resp_text = [],
         json = Some \<lparr>facility_availability_summary_view_by_local_date = None,
                      tour_name = Some ''Cave Tour''\<rparr>\<rparr>
      else if rq = tour_request 200 then server_error
      else \<lparr>status_code = 404, resp_text = ''Not Found'', json = None\<rparr>)"

definition fresh :: world where
  "fresh = \<lparr>sent = [], stdout = []\<rparr>"

section \<open>Calendar facts\<close>

lemma mod_chain:
  fixes y :: nat
  shows "y mod 400 = 0 \<Longrightarrow> y mod 100 = 0" and "y mod 100 = 0 \<Longrightarrow> y mod 4 = 0"
proof -
  have a: "(100::nat) dvd 400" and b: "(4::nat) dvd 100" by simp_all
  show "y mod 400 = 0 \<Longrightarrow> y mod 100 = 0"
    using dvd_trans[OF a, of y] by (simp add: mod_eq_0_iff_dvd)
  show "y mod 100 = 0 \<Longrightarrow> y mod 4 = 0"
    using dvd_trans[OF b, of y] by (simp add: mod_eq_0_iff_dvd)
qed

lemma div_succ_int:
  fixes p k :: int
  assumes "0 < k"
  shows "(p + 1) div k = p div k + (if (p + 1) mod k = 0 then 1 else 0)"
proof -
  define q r where "q = p div k" and "r = p mod k"
  have p: "p = k * q + r" and r: "0 \<le> r" "r < k"
    using assms by (simp_all add: q_def r_def)
  show ?thesis
  proof (cases "r + 1 = k")
    case True
    then have e: "p + 1 = k * (q + 1) + 0" using p by (simp add: algebra_simps)
    have "(p + 1) div k = q + 1"
      by (rule int_div_pos_eq[OF e]) (use assms in simp_all)
    moreover have "(p + 1) mod k = 0"
      by (rule int_mod_pos_eq[OF e]) (use assms in simp_all)
    ultimately show ?thesis by (simp add: q_def)
  next
    case False
    with r have lt: "r + 1 < k" by simp
    have e: "p + 1 = k * q + (r + 1)" using p by simp
    have "(p + 1) div k = q"
      by (rule int_div_pos_eq[OF e]) (use r lt in simp_all)
    moreover have "(p + 1) mod k = r + 1"
      by (rule int_mod_pos_eq[OF e]) (use r lt in simp_all)
    ultimately show ?thesis using r by (simp add: q_def)
  qed
qed

lemma days_before_year_Suc:
  "days_before_year (Suc y) = days_before_year y + 365 + (if is_leap y then 1 else 0)"
proof -
  define p where "p = int y - 1"
  define c4 c100 c400 :: int where "c4 = (if y mod 4 = 0 then 1 else 0)"
     and "c100 = (if y mod 100 = 0 then 1 else 0)" and "c400 = (if y mod 400 = 0 then 1 else 0)"
  have m: "(int y mod 4 = 0) = (y mod 4 = 0)" "(int y mod 100 = 0) = (y mod 100 = 0)"
          "(int y mod 400 = 0) = (y mod 400 = 0)"
  proof -
    have g: "(int y mod int k = 0) = (y mod k = 0)" for k
      by (simp only: of_nat_mod[symmetric] of_nat_eq_0_iff)
    show "(int y mod 4 = 0) = (y mod 4 = 0)" "(int y mod 100 = 0) = (y mod 100 = 0)"
          "(int y mod 400 = 0) = (y mod 400 = 0)"
      using g[of 4] g[of 100] g[of 400] by simp_all
  qed
  have py: "p + 1 = int y" by (simp add: p_def)
  have z: "(0::int) < 4" "(0::int) < 100" "(0::int) < 400" by simp_all
  have d: "int y div 4 = p div 4 + c4" "int y div 100 = p div 100 + c100"
          "int y div 400 = p div 400 + c400"
    unfolding c4_def c100_def c400_def
    by (rule div_succ_int[OF z(1), of p, unfolded py m]
             div_succ_int[OF z(2), of p, unfolded py m]
             div_succ_int[OF z(3), of p, unfolded py m])+
  have l: "(if is_leap y then 1 else 0) = c4 - c100 + c400"
    using mod_chain[of y] by (auto simp: is_leap_def c4_def c100_def c400_def)
  have "days_before_year (Suc y) = int y * 365 + int y div 4 - int y div 100 + int y div 400"
    by (simp add: days_before_year_def Let_def)
  also have "\<dots> = (p * 365 + p div 4 - p div 100 + p div 400) + 365 + (c4 - c100 + c400)"
    unfolding d unfolding py[symmetric] by (simp add: algebra_simps)
  also have "p * 365 + p div 4 - p div 100 + p div 400 = days_before_year y"
    by (simp add: days_before_year_def Let_def p_def)
  finally show ?thesis using l by simp
qed


subsection \<open>Ordinals and the calendar successor\<close>

lemma days_before_month_Suc:
  assumes "1 \<le> m" "m < 12"
  shows "days_before_month y (Suc m) = days_before_month y m + int (days_in_month y m)"
proof -
  from assms have "m = 1 \<or> m = 2 \<or> m = 3 \<or> m = 4 \<or> m = 5 \<or> m = 6 \<or> m = 7 \<or> m = 8 \<or>
      m = 9 \<or> m = 10 \<or> m = 11"
    by arith
  then show ?thesis
    by (elim disjE) (simp_all add: days_before_month_def days_in_month_def)
qed

lemma days_before_month_12:
  "days_before_month y 12 + 31 = 365 + (if is_leap y then 1 else 0)"
  by (simp add: days_before_month_def)

lemma days_before_month_1: "days_before_month y (Suc 0) = 0"
  by (simp add: days_before_month_def)

lemma toordinal_next_day:
  assumes "cal_ok d"
  shows "toordinal (next_day d) = toordinal d + 1"
proof (cases "day d < days_in_month (year d) (month d)")
  case True
  then show ?thesis by (simp add: next_day_def toordinal_def)
next
  case last: False
  with assms have dl: "day d = days_in_month (year d) (month d)" by (simp add: cal_ok_def)
  show ?thesis
  proof (cases "month d < 12")
    case True
    with assms have "days_before_month (year d) (Suc (month d)) =
        days_before_month (year d) (month d) + int (days_in_month (year d) (month d))"
      by (intro days_before_month_Suc) (simp_all add: cal_ok_def)
    with last True dl show ?thesis by (simp add: next_day_def toordinal_def)
  next
    case False
    with assms have m: "month d = 12" by (simp add: cal_ok_def)
    then have "day d = 31" using dl by (simp add: days_in_month_def)
    with m last show ?thesis
      using days_before_month_12[of "year d"]
      by (simp add: next_day_def toordinal_def days_before_year_Suc days_before_month_1
          days_in_month_def)
  qed
qed

lemma cal_ok_next_day: "cal_ok d \<Longrightarrow> cal_ok (next_day d)"
  by (auto simp: cal_ok_def next_day_def days_in_month_def)

lemma cal_ok_add_days: "cal_ok d \<Longrightarrow> cal_ok (add_days d n)"
  by (induction n) (simp_all add: cal_ok_next_day)

lemma toordinal_add_days: "cal_ok d \<Longrightarrow> toordinal (add_days d n) = toordinal d + int n"
  by (induction n) (simp_all add: toordinal_next_day cal_ok_add_days)

subsection \<open>The ordinal orders dates as the field-wise comparison does\<close>

lemma days_before_year_mono: "y \<le> y' \<Longrightarrow> days_before_year y \<le> days_before_year y'"
proof (induction y' )
  case 0
  then show ?case by simp
next
  case (Suc y')
  show ?case
  proof (cases "y = Suc y'")
    case True
    then show ?thesis by simp
  next
    case False
    with Suc have "days_before_year y \<le> days_before_year y'" by simp
    then show ?thesis by (simp add: days_before_year_Suc)
  qed
qed

lemma days_before_month_mono:
  assumes "1 \<le> m" "m < m'" "m' \<le> 12"
  shows "days_before_month y m + int (days_in_month y m) \<le> days_before_month y m'"
  using assms(2,3)
proof (induction m')
  case 0
  then show ?case by simp
next
  case (Suc k)
  show ?case
  proof (cases "m = k")
    case True
    with assms(1) Suc.prems show ?thesis by (simp add: days_before_month_Suc)
  next
    case False
    with Suc have "days_before_month y m + int (days_in_month y m) \<le> days_before_month y k"
      by simp
    moreover have "days_before_month y (Suc k) = days_before_month y k + int (days_in_month y k)"
      using assms(1) Suc.prems False by (intro days_before_month_Suc) simp_all
    ultimately show ?thesis by simp
  qed
qed

lemma day_of_year_bounds:
  assumes "cal_ok d"
  shows "1 \<le> days_before_month (year d) (month d) + int (day d)"
    and "days_before_month (year d) (month d) + int (day d) \<le> 365 + (if is_leap (year d) then 1 else 0)"
proof -
  have nonneg: "0 \<le> days_before_month (year d) (month d)"
    by (simp add: days_before_month_def)
  with assms show "1 \<le> days_before_month (year d) (month d) + int (day d)"
    by (simp add: cal_ok_def)
  show "days_before_month (year d) (month d) + int (day d) \<le> 365 + (if is_leap (year d) then 1 else 0)"
  proof (cases "month d = 12")
    case True
    with assms have "day d \<le> 31" by (simp add: cal_ok_def days_in_month_def)
    with True days_before_month_12[of "year d"] show ?thesis by simp
  next
    case False
    with assms have "days_before_month (year d) (month d) + int (days_in_month (year d) (month d))
        \<le> days_before_month (year d) 12"
      by (intro days_before_month_mono) (simp_all add: cal_ok_def)
    moreover from assms have "int (day d) \<le> int (days_in_month (year d) (month d))"
      by (simp add: cal_ok_def)
    ultimately show ?thesis using days_before_month_12[of "year d"] by simp
  qed
qed

lemma toordinal_less:
  assumes "cal_ok a" "cal_ok b" "date_less a b"
  shows "toordinal a < toordinal b"
proof -
  consider (y) "year a < year b"
    | (m) "year a = year b" "month a < month b"
    | (d) "year a = year b" "month a = month b" "day a < day b"
    using assms(3) by (auto simp: date_less_def)
  then show ?thesis
  proof cases
    case y
    then have "days_before_year (Suc (year a)) \<le> days_before_year (year b)"
      by (intro days_before_year_mono) simp
    with day_of_year_bounds(2)[OF assms(1)] day_of_year_bounds(1)[OF assms(2)]
    show ?thesis by (simp add: toordinal_def days_before_year_Suc)
  next
    case m
    with assms(1,2) have "days_before_month (year a) (month a) + int (days_in_month (year a) (month a))
        \<le> days_before_month (year a) (month b)"
      by (intro days_before_month_mono) (simp_all add: cal_ok_def)
    moreover from assms(1) have "int (day a) \<le> int (days_in_month (year a) (month a))"
      by (simp add: cal_ok_def)
    moreover from assms(2) have "1 \<le> int (day b)" by (simp add: cal_ok_def)
    ultimately show ?thesis using m by (simp add: toordinal_def)
  next
    case d
    then show ?thesis by (simp add: toordinal_def)
  qed
qed

lemma date_trichotomy: "date_less a b \<or> a = b \<or> date_less b a"
  by (cases a; cases b) (auto simp: date_less_def)

lemma date_le_less: "date_le a b \<longleftrightarrow> date_less a b \<or> a = b"
  by (cases a; cases b) (auto simp: date_less_def date_le_def)


lemma toordinal_le_iff:
  assumes "cal_ok a" "cal_ok b"
  shows "toordinal a \<le> toordinal b \<longleftrightarrow> date_le a b"
  using toordinal_less[OF assms] toordinal_less[OF assms(2,1)] date_trichotomy[of a b]
  by (auto simp: date_le_less)

lemma toordinal_inj:
  assumes "cal_ok a" "cal_ok b" "toordinal a = toordinal b"
  shows "a = b"
  using toordinal_less[OF assms(1,2)] toordinal_less[OF assms(2,1)] date_trichotomy[of a b] assms(3)
  by auto

section \<open>The result dictionary\<close>

lemma map_of_dict_set: "map_of (dict_set av k v) = (map_of av)(k \<mapsto> v)"
  by (induction av) (auto simp: fun_eq_iff)


lemma dict_set_twice: "dict_set (dict_set av k v) k v' = dict_set av k v'"
  by (induction av) auto

lemma dict_set_same: "map_of av k = Some v \<Longrightarrow> dict_set av k v = av"
  by (induction av) (auto split: if_splits)

section \<open>The loop over the dates of one tour\<close>

lemma scan_dates_sent: "sent (fst (scan_dates api fid t ds av w)) = sent w"
  by (induction ds arbitrary: av w)
     (auto simp: Let_def print_def split: option.splits bool.splits)

lemma readable_cases:
  "readable api t s \<longleftrightarrow>
     (\<exists>entry by_tour. api s = Some entry \<and> tour_availability_summary_view_by_tour_id entry = Some by_tour \<and>
        (by_tour (str_int t) = None \<or>
         (\<exists>summary b. by_tour (str_int t) = Some summary \<and> has_reservable summary = Some b)))"
  by (auto simp: readable_def is_reservable_def is_listed_false_def is_absent_def
      split: option.splits)

lemma scan_dates_readable:
  assumes "map_of av t = Some found" "\<forall>d\<in>set ds. readable api t (strftime d)"
  shows "scan_dates api fid t ds av w =
     (w\<lparr>stdout := stdout w @ diagnostics api fid t ds\<rparr>,
      Inr (dict_set av t (found @ map strftime (available_dates api t ds))))"
  using assms
proof (induction ds arbitrary: av w found)
  case Nil
  then show ?case by (simp add: diagnostics_def available_dates_def dict_set_same)
next
  case (Cons d ds)
  from Cons.prems(2) have r: "readable api t (strftime d)"
    and rest: "\<forall>d\<in>set ds. readable api t (strftime d)" by simp_all
  from r obtain entry by_tour where e: "api (strftime d) = Some entry"
      "tour_availability_summary_view_by_tour_id entry = Some by_tour"
    and c: "by_tour (str_int t) = None \<or>
         (\<exists>summary b. by_tour (str_int t) = Some summary \<and> has_reservable summary = Some b)"
    unfolding readable_cases by blast
  from c consider (absent) "by_tour (str_int t) = None"
    | (yes) summary where "by_tour (str_int t) = Some summary" "has_reservable summary = Some True"
    | (no) summary where "by_tour (str_int t) = Some summary" "has_reservable summary = Some False"
    by (metis (full_types))
  then show ?case
  proof cases
    case absent
    with e have a: "is_absent api t (strftime d)" "\<not> is_reservable api t (strftime d)"
      by (simp_all add: is_absent_def is_reservable_def)
    show ?thesis
      using e absent a Cons.IH[OF Cons.prems(1) rest]
      by (simp add: Let_def print_def diagnostics_def available_dates_def)
  next
    case yes
    with e have a: "\<not> is_absent api t (strftime d)" "is_reservable api t (strftime d)"
      by (simp_all add: is_absent_def is_reservable_def)
    have m: "map_of (dict_set av t (found @ [strftime d])) t = Some (found @ [strftime d])"
      by (simp add: map_of_dict_set)
    show ?thesis
      using e yes a Cons.prems(1) Cons.IH[OF m rest]
      by (simp add: Let_def diagnostics_def available_dates_def dict_set_twice)
  next
    case no
    with e have a: "\<not> is_absent api t (strftime d)" "\<not> is_reservable api t (strftime d)"
      by (simp_all add: is_absent_def is_reservable_def)
    show ?thesis
      using e no a Cons.IH[OF Cons.prems(1) rest]
      by (simp add: Let_def diagnostics_def available_dates_def)
  qed
qed

lemma scan_dates_unreadable:
  assumes "map_of av t = Some found" "\<not> (\<forall>d\<in>set ds. readable api t (strftime d))"
  shows "\<exists>w' k. scan_dates api fid t ds av w = (w', Inl (KeyError k))"
  using assms
proof (induction ds arbitrary: av w found)
  case Nil
  then show ?case by simp
next
  case (Cons d ds)
  show ?case
  proof (cases "readable api t (strftime d)")
    case False
    then show ?thesis
      by (auto simp: readable_cases Let_def split: option.splits bool.splits)
  next
    case True
    with Cons.prems(2) have rest: "\<not> (\<forall>d\<in>set ds. readable api t (strftime d))" by simp
    have m: "map_of (dict_set av t (found @ [strftime d])) t = Some (found @ [strftime d])"
      by (simp add: map_of_dict_set)
    from Cons.IH[OF Cons.prems(1) rest] Cons.IH[OF m rest] Cons.prems(1)
    show ?thesis
      by (auto simp: Let_def split: option.splits bool.splits)
  qed
qed

section \<open>The loop over the tours\<close>

lemma collapse_sent: "sent (fst (collapse api fid ds ts av w)) = sent w"
proof (induction ts arbitrary: av w)
  case Nil
  then show ?case by simp
next
  case (Cons t ts)
  obtain w1 r1 where s: "scan_dates api fid t ds (dict_set av t []) w = (w1, r1)"
    by (cases "scan_dates api fid t ds (dict_set av t []) w")
  with scan_dates_sent[of api fid t ds "dict_set av t []" w] have "sent w1 = sent w" by simp
  with s Cons.IH show ?case by (cases r1) simp_all
qed


lemma collapse_unreadable:
  assumes "\<not> (\<forall>t\<in>set ts. \<forall>d\<in>set ds. readable api t (strftime d))"
  shows "\<exists>w' k. collapse api fid ds ts av w = (w', Inl (KeyError k))"
  using assms
proof (induction ts arbitrary: av w)
  case Nil
  then show ?case by simp
next
  case (Cons t ts)
  have m: "map_of (dict_set av t []) t = Some []" by (simp add: map_of_dict_set)
  show ?case
  proof (cases "\<forall>d\<in>set ds. readable api t (strftime d)")
    case True
    with Cons.prems have rest: "\<not> (\<forall>t\<in>set ts. \<forall>d\<in>set ds. readable api t (strftime d))" by simp
    show ?thesis
      using Cons.IH[OF rest] by (simp add: scan_dates_readable[OF m True])
  next
    case False
    from scan_dates_unreadable[OF m False, of fid w] show ?thesis by auto
  qed
qed


subsection \<open>The filled dictionary\<close>









section \<open>Requests and the monthly queries\<close>

lemma send_request_world:
  "fst (send_request up u ps w) = w\<lparr>sent := sent w @ [\<lparr>url = u, params = ps\<rparr>]\<rparr>"
  by (simp add: send_request_def Let_def split: option.splits)

lemma send_request_Inr:
  "snd (send_request up u ps w) = Inr body \<longleftrightarrow>
     status_code (up \<lparr>url = u, params = ps\<rparr>) = 200 \<and> json (up \<lparr>url = u, params = ps\<rparr>) = Some body"
  by (simp add: send_request_def Let_def split: option.splits)


lemma fetch_months_sent:
  "sent (fst (fetch_months up fid ms api w)) =
     sent w @ map (month_request fid)
       (takeWhile (month_query_ok up fid) ms @ take 1 (dropWhile (month_query_ok up fid) ms))"
proof (induction ms arbitrary: api w)
  case Nil
  then show ?case by simp
next
  case (Cons m ms)
  obtain w1 r1 where s: "send_request up (availability_url fid) (month_params m) w = (w1, r1)"
    by (cases "send_request up (availability_url fid) (month_params m) w")
  with send_request_world[of up "availability_url fid" "month_params m" w]
  have w1: "sent w1 = sent w @ [month_request fid m]" by (simp add: month_request_def)
  show ?case
  proof (cases "month_query_ok up fid m")
    case True
    then obtain body by_date where
      "status_code (up (month_request fid m)) = 200" "json (up (month_request fid m)) = Some body"
      "facility_availability_summary_view_by_local_date body = Some by_date"
      by (auto simp: month_query_ok_def Let_def split: option.splits)
    with s have "r1 = Inr body"
      using send_request_Inr[of up "availability_url fid" "month_params m" w body]
      by (simp add: month_request_def)
    with s True w1 \<open>facility_availability_summary_view_by_local_date body = Some by_date\<close>
    show ?thesis by (simp add: Cons.IH)
  next
    case False
    have "\<exists>e. snd (fetch_months up fid (m # ms) api w) = Inl e \<and> fst (fetch_months up fid (m # ms) api w) = w1"
    proof (cases r1)
      case (Inl e)
      with s show ?thesis by simp
    next
      case (Inr body)
      with s have "status_code (up (month_request fid m)) = 200 \<and> json (up (month_request fid m)) = Some body"
        using send_request_Inr[of up "availability_url fid" "month_params m" w body]
        by (simp add: month_request_def)
      with False have "facility_availability_summary_view_by_local_date body = None"
        by (simp add: month_query_ok_def)
      with s Inr show ?thesis by simp
    qed
    with False w1 show ?thesis by simp
  qed
qed


section \<open>The resolver as a whole\<close>


lemma get_tour_availabilities_sent:
  "sent (fst (get_tour_availabilities up fid ts s e w)) =
     sent (fst (fetch_months up fid (months_of s e) Map.empty w))"
proof -
  obtain w1 r1 where f: "fetch_months up fid (months_of s e) Map.empty w = (w1, r1)"
    by (cases "fetch_months up fid (months_of s e) Map.empty w")
  show ?thesis
  proof (cases r1)
    case (Inl err)
    with f show ?thesis by (simp add: get_tour_availabilities_def)
  next
    case (Inr api)
    with f collapse_sent[of api fid "desired_dates s e" ts "[]" w1] show ?thesis
      by (simp add: get_tour_availabilities_def)
  qed
qed

section \<open>The dates of a range\<close>

lemma desired_dates_member:
  assumes "cal_ok s" "d \<in> set (desired_dates s e)"
  shows "cal_ok d" "toordinal s \<le> toordinal d" "toordinal d \<le> toordinal e"
proof -
  from assms(2) obtain i where i: "d = add_days s i" "int i < days_between s e + 1"
    by (auto simp: desired_dates_def)
  show "cal_ok d" using i assms(1) by (simp add: cal_ok_add_days)
  show "toordinal s \<le> toordinal d" using i assms(1) by (simp add: toordinal_add_days)
  show "toordinal d \<le> toordinal e"
    using i assms(1) by (simp add: toordinal_add_days days_between_def)
qed

lemma desired_dates_in_range:
  assumes "cal_ok s" "cal_ok e" "d \<in> set (desired_dates s e)"
  shows "date_le s d \<and> date_le d e"
  using desired_dates_member[OF assms(1,3)] assms(1,2)
  by (simp add: toordinal_le_iff)

lemma desired_dates_complete:
  assumes "cal_ok s" "cal_ok d" "toordinal s \<le> toordinal d" "toordinal d \<le> toordinal e"
  shows "d \<in> set (desired_dates s e)"
proof -
  define i where "i = nat (toordinal d - toordinal s)"
  have "toordinal (add_days s i) = toordinal d"
    using assms(1,3) by (simp add: toordinal_add_days i_def)
  then have "add_days s i = d"
    using assms(1,2) by (intro toordinal_inj) (simp_all add: cal_ok_add_days)
  moreover have "i < nat (days_between s e + 1)"
    using assms(3,4) by (simp add: i_def days_between_def)
  ultimately show ?thesis by (auto simp: desired_dates_def)
qed

lemma desired_dates_complete_le:
  assumes "cal_ok s" "cal_ok d" "cal_ok e" "date_le s d" "date_le d e"
  shows "d \<in> set (desired_dates s e)"
  using assms by (intro desired_dates_complete) (simp_all add: toordinal_le_iff)



lemma desired_dates_start:
  assumes "cal_ok s" "cal_ok e" "date_le s e"
  shows "s \<in> set (desired_dates s e)"
  using assms by (intro desired_dates_complete) (simp_all add: toordinal_le_iff)



section \<open>Date strings are ordered as the dates are\<close>

lemma of_char_digit_char: "of_char (digit_char n) = (48 + n mod 10 :: nat)"
proof -
  define k where "k = n mod 10"
  have "k < 10" by (simp add: k_def)
  then have "k = 0 \<or> k = 1 \<or> k = 2 \<or> k = 3 \<or> k = 4 \<or> k = 5 \<or> k = 6 \<or> k = 7 \<or> k = 8 \<or> k = 9"
    by arith
  then have "n mod 10 = 0 \<or> n mod 10 = 1 \<or> n mod 10 = 2 \<or> n mod 10 = 3 \<or> n mod 10 = 4 \<or>
      n mod 10 = 5 \<or> n mod 10 = 6 \<or> n mod 10 = 7 \<or> n mod 10 = 8 \<or> n mod 10 = 9"
    by (simp only: k_def)
  then show ?thesis
    by (elim disjE) (simp_all add: digit_char_def)
qed




lemma str_less_digit:
  assumes "a mod 10 < b mod 10"
  shows "str_less (digit_char a # r) (digit_char b # r')"
  using assms by (simp add: of_char_digit_char)

lemma div_mod_less:
  fixes a b k :: nat
  assumes "a < b"
  shows "a div k < b div k \<or> (a div k = b div k \<and> a mod k < b mod k)"
proof (cases "a div k = b div k")
  case True
  have "a mod k < b mod k"
  proof (rule ccontr)
    assume n: "\<not> a mod k < b mod k"
    then have le: "b mod k \<le> a mod k" by simp
    have "b = k * (b div k) + b mod k" by simp
    also have "\<dots> \<le> k * (b div k) + a mod k" using le by (rule add_left_mono)
    also have "\<dots> = k * (a div k) + a mod k" by (simp only: True)
    also have "\<dots> = a" by simp
    finally show False using assms by simp
  qed
  with True show ?thesis by simp
next
  case False
  moreover have "a div k \<le> b div k" using assms by (simp add: div_le_mono)
  ultimately show ?thesis by simp
qed






section \<open>The months of a range\<close>

lemma month_index_first_of_index: "month_index (first_of_index i) = i"
  by (simp add: month_index_def first_of_index_def)

lemma first_of_index_month_index:
  assumes "1 \<le> month d" "month d \<le> 12"
  shows "first_of_index (month_index d) = Datetime (year d) (month d) 1"
proof -
  define k where "k = month d - 1"
  have k: "k < 12" "month d = k + 1" using assms by (simp_all add: k_def)
  have "(12 * year d + k) div 12 = year d" "(12 * year d + k) mod 12 = k"
    using k(1) by simp_all
  then show ?thesis
    by (simp add: first_of_index_def month_index_def k(2))
qed

lemma year_month_first_of_index: "year_month (first_of_index i) = (i div 12, i mod 12 + 1)"
  by (simp add: year_month_def first_of_index_def)

lemma year_month_by_index:
  assumes "1 \<le> month d" "month d \<le> 12"
  shows "year_month d = year_month (first_of_index (month_index d))"
  by (simp add: first_of_index_month_index[OF assms] year_month_def)

lemma cal_ok_first_of_index: "cal_ok (first_of_index i)"
proof -
  have "i mod 12 < 12" by simp
  then have "i mod 12 + 1 \<le> 12" by (simp only: Suc_eq_plus1[symmetric] Suc_le_eq)
  then show ?thesis by (simp add: cal_ok_def first_of_index_def days_in_month_def)
qed

lemma month_index_le:
  assumes "1 \<le> month a" "month a \<le> 12" "1 \<le> month b" "month b \<le> 12"
  shows "month_index a \<le> month_index b \<longleftrightarrow>
     year a < year b \<or> (year a = year b \<and> month a \<le> month b)"
  using assms by (auto simp: month_index_def)

lemma date_le_month_index:
  assumes "cal_ok a" "cal_ok b" "date_le a b"
  shows "month_index a \<le> month_index b"
proof -
  from assms(1,2) have m: "1 \<le> month a" "month a \<le> 12" "1 \<le> month b" "month b \<le> 12"
    by (simp_all add: cal_ok_def)
  from assms(3) show ?thesis unfolding month_index_le[OF m] by (auto simp: date_le_def)
qed

lemma first_date_le_iff:
  assumes "day c = 1" "1 \<le> month c" "month c \<le> 12" "cal_ok u"
  shows "date_le c u \<longleftrightarrow> month_index c \<le> month_index u"
proof -
  from assms(4) have m: "1 \<le> month u" "month u \<le> 12" "1 \<le> day u" by (simp_all add: cal_ok_def)
  show ?thesis
    unfolding month_index_le[OF assms(2,3) m(1,2)] using assms(1) m(3)
    by (auto simp: date_le_def)
qed

lemma next_month_first:
  assumes "day c = 1" "1 \<le> month c" "month c \<le> 12"
  shows "day (next_month c) = 1" "1 \<le> month (next_month c)" "month (next_month c) \<le> 12"
    "month_index (next_month c) = Suc (month_index c)"
  using assms by (auto simp: next_month_def month_index_def)

lemma rrule_monthly_by_index:
  assumes "day c = 1" "1 \<le> month c" "month c \<le> 12" "cal_ok u"
  shows "rrule_monthly c u = map first_of_index [month_index c ..< Suc (month_index u)]"
  using assms
proof (induction c u rule: rrule_monthly.induct)
  case (1 cur until)
  have c: "cur = first_of_index (month_index cur)"
    using first_of_index_month_index[OF "1.prems"(2,3)] "1.prems"(1) by (cases cur) simp
  show ?case
  proof (cases "date_le cur until")
    case True
    then have le: "month_index cur \<le> month_index until"
      using first_date_le_iff[OF "1.prems"] by simp
    have "rrule_monthly (next_month cur) until =
        map first_of_index [month_index (next_month cur) ..< Suc (month_index until)]"
      using True next_month_first[OF "1.prems"(1,2,3)] "1.prems"(4) by (intro "1.IH") simp_all
    then have "rrule_monthly (next_month cur) until =
        map first_of_index [Suc (month_index cur) ..< Suc (month_index until)]"
      by (simp only: next_month_first(4)[OF "1.prems"(1,2,3)])
    moreover have "[month_index cur ..< Suc (month_index until)] =
        month_index cur # [Suc (month_index cur) ..< Suc (month_index until)]"
      using le by (simp add: upt_conv_Cons)
    ultimately show ?thesis
      using True c by (subst rrule_monthly.simps) simp
  next
    case False
    then have "month_index until < month_index cur"
      using first_date_le_iff[OF "1.prems"] by simp
    with False show ?thesis by (subst rrule_monthly.simps) simp
  qed
qed

lemma months_of_by_index:
  assumes "cal_ok s" "cal_ok e"
  shows "months_of s e = map first_of_index [month_index s ..< Suc (month_index e)]"
proof -
  from assms(1) have m: "1 \<le> month s" "month s \<le> 12" by (simp_all add: cal_ok_def)
  have "rrule_monthly (Datetime (year s) (month s) 1) e =
      map first_of_index [month_index (Datetime (year s) (month s) 1) ..< Suc (month_index e)]"
    using m assms(2) by (intro rrule_monthly_by_index) simp_all
  then show ?thesis by (simp add: months_of_def month_index_def)
qed

lemma inj_year_month_first: "inj (\<lambda>i. year_month (first_of_index i))"
proof (rule injI)
  fix i j assume "year_month (first_of_index i) = year_month (first_of_index j)"
  then have "i div 12 = j div 12" "i mod 12 = j mod 12"
    by (simp_all add: year_month_first_of_index)
  then show "i = j" by (metis div_mult_mod_eq)
qed

lemma months_of_distinct:
  assumes "cal_ok s" "cal_ok e"
  shows "distinct (map year_month (months_of s e))"
proof -
  have "distinct (map (\<lambda>i. year_month (first_of_index i)) [month_index s ..< Suc (month_index e)])"
    by (intro iffD2[OF distinct_map] conjI distinct_upt inj_on_subset[OF inj_year_month_first]) simp
  then show ?thesis by (simp add: months_of_by_index[OF assms] comp_def)
qed

lemma date_less_first_of_index: "i < j \<Longrightarrow> date_less (first_of_index i) (first_of_index j)"
proof -
  assume "i < j"
  then have "i div 12 < j div 12 \<or> (i div 12 = j div 12 \<and> i mod 12 < j mod 12)"
    by (rule div_mod_less)
  then show ?thesis by (auto simp: date_less_def first_of_index_def)
qed

lemma months_of_increasing:
  assumes "cal_ok s" "cal_ok e"
  shows "sorted_wrt date_less (months_of s e)"
proof -
  have "sorted_wrt (\<lambda>i j. date_less (first_of_index i) (first_of_index j)) [a..<b]" for a b
    by (simp add: sorted_wrt_iff_nth_less date_less_first_of_index)
  then show ?thesis unfolding months_of_by_index[OF assms] sorted_wrt_map .
qed

lemma months_of_touched:
  assumes "cal_ok s" "cal_ok e" "date_le s e"
  shows "set (map year_month (months_of s e)) = year_month ` set (desired_dates s e)"
proof (intro set_eqI iffI)
  fix p assume "p \<in> set (map year_month (months_of s e))"
  then obtain i where i: "month_index s \<le> i" "i \<le> month_index e" "p = year_month (first_of_index i)"
    unfolding months_of_by_index[OF assms(1,2)] by auto
  show "p \<in> year_month ` set (desired_dates s e)"
  proof (cases "i = month_index s")
    case True
    from assms(1) have "year_month s = year_month (first_of_index (month_index s))"
      by (intro year_month_by_index) (simp_all add: cal_ok_def)
    with True i(3) have "p = year_month s" by simp
    then show ?thesis using desired_dates_start[OF assms] by (rule image_eqI)
  next
    case False
    let ?d = "first_of_index i"
    from assms(1) have fs: "first_of_index (month_index s) = Datetime (year s) (month s) 1"
      by (intro first_of_index_month_index) (simp_all add: cal_ok_def)
    from False i(1) have "date_less (first_of_index (month_index s)) ?d"
      by (intro date_less_first_of_index) simp
    moreover have "day ?d = 1" by (simp add: first_of_index_def)
    ultimately have "date_less s ?d" unfolding fs by (auto simp: date_less_def)
    then have 1: "date_le s ?d" by (simp add: date_le_less)
    have "date_le ?d e \<longleftrightarrow> month_index ?d \<le> month_index e"
      by (intro first_date_le_iff assms(2)) (simp_all add: first_of_index_def)
    with i(2) have 2: "date_le ?d e" by (simp add: month_index_first_of_index)
    have "?d \<in> set (desired_dates s e)"
      using assms(1,2) cal_ok_first_of_index 1 2 by (intro desired_dates_complete_le)
    with i(3) show ?thesis by auto
  qed
next
  fix p assume "p \<in> year_month ` set (desired_dates s e)"
  then obtain d where d: "d \<in> set (desired_dates s e)" "p = year_month d" by auto
  from desired_dates_member(1)[OF assms(1) d(1)] have cd: "cal_ok d" .
  from desired_dates_in_range[OF assms(1,2) d(1)] have r: "date_le s d" "date_le d e" by simp_all
  have "month_index s \<le> month_index d" "month_index d \<le> month_index e"
    using date_le_month_index[OF assms(1) cd r(1)] date_le_month_index[OF cd assms(2) r(2)]
    by simp_all
  then have mem: "month_index d \<in> set [month_index s ..< Suc (month_index e)]"
    by (simp del: upt_Suc)
  from cd have "year_month d = year_month (first_of_index (month_index d))"
    by (intro year_month_by_index) (simp_all add: cal_ok_def)
  with d(2) have "p = (year_month \<circ> first_of_index) (month_index d)" by simp
  then have "p \<in> (year_month \<circ> first_of_index) ` set [month_index s ..< Suc (month_index e)]"
    using mem by (rule image_eqI)
  then show "p \<in> set (map year_month (months_of s e))"
    unfolding months_of_by_index[OF assms(1,2)] by (simp only: set_map map_map)
qed

lemma months_of_count:
  assumes "cal_ok s" "cal_ok e" "date_le s e"
  shows "length (months_of s e) = card (year_month ` set (desired_dates s e))"
proof -
  have "card (set (map year_month (months_of s e))) = length (map year_month (months_of s e))"
    by (rule distinct_card[OF months_of_distinct[OF assms(1,2)]])
  then show ?thesis unfolding months_of_touched[OF assms] by simp
qed

section \<open>Requests stop at the first failure\<close>

lemma stops_at_failure_Nil: "stops_at_failure up [] r"
  by (simp add: stops_at_failure_def split: sum.splits)

lemma stops_at_failure_Inl:
  "stops_at_failure up new (Inl e :: py_error + 'a) \<Longrightarrow> stops_at_failure up new (Inl e :: py_error + 'b)"
  by (simp add: stops_at_failure_def)

lemma stops_at_failure_Inr:
  "stops_at_failure up new (Inr v) \<longleftrightarrow> (\<forall>rq\<in>set new. status_code (up rq) = 200)"
  by (auto simp: stops_at_failure_def dest: in_set_butlastD)

lemma stops_at_failure_append:
  assumes "\<forall>rq\<in>set n1. status_code (up rq) = 200" "stops_at_failure up n2 r"
  shows "stops_at_failure up (n1 @ n2) r"
proof (cases "n2 = []")
  case True
  with assms show ?thesis
    by (auto simp: stops_at_failure_def dest: in_set_butlastD split: sum.splits)
next
  case False
  then have "butlast (n1 @ n2) = n1 @ butlast n2" "last (n1 @ n2) = last n2"
    by (simp_all add: butlast_append)
  with assms False show ?thesis
    by (auto simp: stops_at_failure_def split: sum.splits)
qed

lemma stops_at_failure_result:
  assumes "stops_at_failure up new r" "rq \<in> set new" "status_code (up rq) \<noteq> 200"
  shows "rq = last new \<and> r = Inl (failedRequest rq (up rq))"
proof -
  from assms(2) have ne: "new \<noteq> []" by auto
  have l: "rq = last new"
  proof (rule ccontr)
    assume "rq \<noteq> last new"
    with assms(2) ne have "rq \<in> set (butlast new)"
      by (metis append_butlast_last_id in_set_conv_decomp rotate1.simps(2) set_ConsD set_rotate1)
    with assms(1,3) show False by (simp add: stops_at_failure_def)
  qed
  from assms l ne show ?thesis
    by (cases r) (auto simp: stops_at_failure_def)
qed

lemma send_request_stops:
  "stops_at_failure up [\<lparr>url = u, params = ps\<rparr>] (snd (send_request up u ps w))"
  by (simp add: send_request_def Let_def stops_at_failure_def split: option.splits)

lemma fetch_months_stops:
  "\<exists>new. sent (fst (fetch_months up fid ms api w)) = sent w @ new \<and>
     stops_at_failure up new (snd (fetch_months up fid ms api w))"
proof (induction ms arbitrary: api w)
  case Nil
  then show ?case by (simp add: stops_at_failure_def)
next
  case (Cons m ms)
  let ?rq = "\<lparr>url = availability_url fid, params = month_params m\<rparr>"
  obtain w1 r1 where s: "send_request up (availability_url fid) (month_params m) w = (w1, r1)"
    by (cases "send_request up (availability_url fid) (month_params m) w")
  from send_request_world[of up "availability_url fid" "month_params m" w] s
  have w1: "sent w1 = sent w @ [?rq]" by simp
  from send_request_stops[of up "availability_url fid" "month_params m" w] s
  have st: "stops_at_failure up [?rq] r1" by simp
  show ?case
  proof (cases r1)
    case (Inl e)
    with s w1 st show ?thesis by (auto intro: stops_at_failure_Inl)
  next
    case (Inr body)
    with st have ok: "\<forall>rq\<in>set [?rq]. status_code (up rq) = 200"
      by (simp only: stops_at_failure_Inr)
    show ?thesis
    proof (cases "facility_availability_summary_view_by_local_date body")
      case None
      with s Inr w1 ok show ?thesis
        by (auto simp: stops_at_failure_def)
    next
      case (Some by_date)
      from Cons.IH[of "api ++ by_date" w1] obtain new where
        n: "sent (fst (fetch_months up fid ms (api ++ by_date) w1)) = sent w1 @ new"
           "stops_at_failure up new (snd (fetch_months up fid ms (api ++ by_date) w1))"
        by blast
      from stops_at_failure_append[OF ok n(2)] n(1) w1 s Inr Some show ?thesis
        by (intro exI[of _ "[?rq] @ new"]) simp
    qed
  qed
qed

lemma get_tour_availabilities_stops:
  "\<exists>new. sent (fst (get_tour_availabilities up fid ts s e w)) = sent w @ new \<and>
     stops_at_failure up new (snd (get_tour_availabilities up fid ts s e w))"
proof -
  let ?f = "fetch_months up fid (months_of s e) Map.empty w"
  from fetch_months_stops[of up fid "months_of s e" Map.empty w] obtain new where
    n: "sent (fst ?f) = sent w @ new" "stops_at_failure up new (snd ?f)" by blast
  obtain w1 r1 where f: "?f = (w1, r1)" by (cases ?f)
  show ?thesis
  proof (cases r1)
    case (Inl err)
    with f n show ?thesis
      by (auto simp: get_tour_availabilities_def intro: stops_at_failure_Inl)
  next
    case (Inr api)
    with f n have ok: "\<forall>rq\<in>set new. status_code (up rq) = 200"
      by (simp add: stops_at_failure_Inr)
    have "sent (fst (get_tour_availabilities up fid ts s e w)) = sent w @ new"
      using n(1) by (simp only: get_tour_availabilities_sent)
    moreover have "stops_at_failure up new (snd (get_tour_availabilities up fid ts s e w))"
      using ok by (cases "snd (get_tour_availabilities up fid ts s e w)")
        (auto simp: stops_at_failure_def dest: in_set_butlastD)
    ultimately show ?thesis by blast
  qed
qed

section \<open>The renderer\<close>

lemma tour_request_eq: "\<lparr>url = BASE_URL @ MAIN_PAGE_ENDPOINT @ str_int t, params = []\<rparr> = tour_request t"
  by (simp add: tour_request_def)

lemma get_tour_name_world: "fst (get_tour_name up t w) = w\<lparr>sent := sent w @ [tour_request t]\<rparr>"
proof -
  obtain w1 r1 where s: "send_request up (BASE_URL @ MAIN_PAGE_ENDPOINT @ str_int t) [] w = (w1, r1)"
    by (cases "send_request up (BASE_URL @ MAIN_PAGE_ENDPOINT @ str_int t) [] w")
  with send_request_world[of up "BASE_URL @ MAIN_PAGE_ENDPOINT @ str_int t" "[]" w]
  have "w1 = w\<lparr>sent := sent w @ [tour_request t]\<rparr>" by (simp add: tour_request_eq)
  with s show ?thesis
    by (simp add: get_tour_name_def split: sum.splits option.splits)
qed



lemma get_tour_name_stops: "stops_at_failure up [tour_request t] (snd (get_tour_name up t w))"
proof -
  obtain w1 r1 where s: "send_request up (BASE_URL @ MAIN_PAGE_ENDPOINT @ str_int t) [] w = (w1, r1)"
    by (cases "send_request up (BASE_URL @ MAIN_PAGE_ENDPOINT @ str_int t) [] w")
  from send_request_stops[of up "BASE_URL @ MAIN_PAGE_ENDPOINT @ str_int t" "[]" w] s
  have st: "stops_at_failure up [tour_request t] r1" by (simp add: tour_request_eq)
  show ?thesis
  proof (cases r1)
    case (Inl e)
    with s st show ?thesis by (auto simp: get_tour_name_def intro: stops_at_failure_Inl)
  next
    case (Inr body)
    with st have "status_code (up (tour_request t)) = 200" by (simp add: stops_at_failure_Inr)
    with s Inr show ?thesis
      by (simp add: get_tour_name_def stops_at_failure_def split: option.splits)
  qed
qed




lemma print_human_readable_stops:
  "\<exists>new. sent (fst (print_human_readable up av w)) = sent w @ new \<and>
     stops_at_failure up new (snd (print_human_readable up av w))"
proof (induction av arbitrary: w)
  case Nil
  then show ?case by (simp add: stops_at_failure_def)
next
  case (Cons p av)
  obtain t ds where p: "p = (t, ds)" by (cases p)
  obtain w1 r1 where g: "get_tour_name up t w = (w1, r1)" by (cases "get_tour_name up t w")
  from get_tour_name_world[of up t w] g have w1: "sent w1 = sent w @ [tour_request t]" by simp
  from get_tour_name_stops[of up t w] g have st: "stops_at_failure up [tour_request t] r1" by simp
  show ?case
  proof (cases r1)
    case (Inl e)
    with g w1 st p show ?thesis by (auto intro: stops_at_failure_Inl)
  next
    case (Inr name)
    with st have ok: "\<forall>rq\<in>set [tour_request t]. status_code (up rq) = 200"
      by (simp only: stops_at_failure_Inr)
    let ?w = "print (report_line name ds) w1"
    from Cons.IH[of ?w] obtain new where
      n: "sent (fst (print_human_readable up av ?w)) = sent ?w @ new"
         "stops_at_failure up new (snd (print_human_readable up av ?w))"
      by blast
    from stops_at_failure_append[OF ok n(2)] n(1) w1 g Inr p show ?thesis
      by (intro exI[of _ "[tour_request t] @ new"]) (simp add: print_def)
  qed
qed

section \<open>The program as a whole\<close>

lemma main_stops:
  "\<exists>new. sent (fst (main up fid ts s e w)) = sent w @ new \<and>
     stops_at_failure up new (snd (main up fid ts s e w))"
proof -
  let ?g = "get_tour_availabilities up fid ts s e w"
  from get_tour_availabilities_stops[of up fid ts s e w] obtain n1 where
    n1: "sent (fst ?g) = sent w @ n1" "stops_at_failure up n1 (snd ?g)" by blast
  obtain w1 r1 where g: "?g = (w1, r1)" by (cases ?g)
  show ?thesis
  proof (cases r1)
    case (Inl err)
    with g n1 show ?thesis by (auto simp: main_def intro: stops_at_failure_Inl)
  next
    case (Inr av)
    with g n1 have ok: "\<forall>rq\<in>set n1. status_code (up rq) = 200"
      by (simp add: stops_at_failure_Inr)
    let ?p = "print_human_readable up av w1"
    from print_human_readable_stops[of up av w1] obtain n2 where
      n2: "sent (fst ?p) = sent w1 @ n2" "stops_at_failure up n2 (snd ?p)" by blast
    obtain w2 r2 where p: "?p = (w2, r2)" by (cases ?p)
    have m: "main up fid ts s e w =
       (w2, case r2 of Inl err \<Rightarrow> Inl err | Inr u \<Rightarrow> Inr (if any_values av then 0 else 1))"
      using g Inr p by (cases r2) (simp_all add: main_def)
    have "stops_at_failure up (n1 @ n2)
        ((case r2 of Inl err \<Rightarrow> Inl err | Inr u \<Rightarrow> Inr (if any_values av then 0 else 1))
          :: py_error + int)"
    proof (cases r2)
      case (Inl err)
      with stops_at_failure_append[OF ok n2(2)] p show ?thesis
        by (auto intro: stops_at_failure_Inl)
    next
      case (Inr u)
      with n2(2) p have "\<forall>rq\<in>set n2. status_code (up rq) = 200"
        by (simp add: stops_at_failure_Inr)
      with ok Inr show ?thesis by (auto simp: stops_at_failure_Inr)
    qed
    moreover have "sent w2 = sent w @ (n1 @ n2)" using n1(1) n2(1) g p by simp
    ultimately show ?thesis unfolding m by (intro exI[of _ "n1 @ n2"]) simp
  qed
qed

lemma script_sent: "sent (fst (script up fid ts s e w)) = sent (fst (main up fid ts s e w))"
  by (cases "main up fid ts s e w"; cases "snd (main up fid ts s e w)")
     (auto simp: script_def print_def)

lemma script_Inl:
  assumes "snd (main up fid ts s e w) = Inl err"
  shows "snd (script up fid ts s e w) = Uncaught err"
    and "stdout (fst (script up fid ts s e w)) =
           stdout (fst (main up fid ts s e w)) @ [''Something went wrong'']"
  using assms by (cases "main up fid ts s e w"; simp add: script_def print_def)+




section \<open>What the resolver's result depends on\<close>

lemma send_request_cong:
  assumes "up \<lparr>url = u, params = ps\<rparr> = up' \<lparr>url = u, params = ps\<rparr>"
  shows "snd (send_request up u ps w) = snd (send_request up' u ps w')"
  using assms by (simp add: send_request_def Let_def split: option.splits)

lemma fetch_months_cong:
  assumes "\<forall>m\<in>set ms. up (month_request fid m) = up' (month_request fid m)"
  shows "snd (fetch_months up fid ms api w) = snd (fetch_months up' fid ms api w')"
  using assms
proof (induction ms arbitrary: api w w')
  case Nil
  then show ?case by simp
next
  case (Cons m ms)
  obtain w1 r1 where s: "send_request up (availability_url fid) (month_params m) w = (w1, r1)"
    by (cases "send_request up (availability_url fid) (month_params m) w")
  obtain w1' r1' where s': "send_request up' (availability_url fid) (month_params m) w' = (w1', r1')"
    by (cases "send_request up' (availability_url fid) (month_params m) w'")
  from Cons.prems have "up \<lparr>url = availability_url fid, params = month_params m\<rparr> =
      up' \<lparr>url = availability_url fid, params = month_params m\<rparr>"
    by (simp add: month_request_def)
  then have "snd (send_request up (availability_url fid) (month_params m) w) =
      snd (send_request up' (availability_url fid) (month_params m) w')"
    by (rule send_request_cong)
  with s s' have r: "r1' = r1" by simp
  from Cons.prems have rest: "\<forall>m\<in>set ms. up (month_request fid m) = up' (month_request fid m)"
    by simp
  show ?case
    using s s' r Cons.IH[OF rest]
    by (simp split: sum.splits option.splits)
qed

lemma scan_dates_snd:
  "snd (scan_dates api fid t ds av w) = snd (scan_dates api fid t ds av w')"
  by (induction ds arbitrary: av w w')
     (simp_all add: Let_def split: option.splits bool.splits)

lemma collapse_snd:
  "snd (collapse api fid ds ts av w) = snd (collapse api fid ds ts av w')"
proof (induction ts arbitrary: av w w')
  case Nil
  then show ?case by simp
next
  case (Cons t ts)
  obtain w1 r1 where s: "scan_dates api fid t ds (dict_set av t []) w = (w1, r1)"
    by (cases "scan_dates api fid t ds (dict_set av t []) w")
  obtain w1' r1' where s': "scan_dates api fid t ds (dict_set av t []) w' = (w1', r1')"
    by (cases "scan_dates api fid t ds (dict_set av t []) w'")
  from scan_dates_snd[of api fid t ds "dict_set av t []" w w'] s s' have "r1' = r1" by simp
  with s s' Cons.IH show ?case by (cases r1) simp_all
qed

lemma get_tour_availabilities_cong:
  assumes "\<forall>m\<in>set (months_of s e). up (month_request fid m) = up' (month_request fid m)"
  shows "snd (get_tour_availabilities up fid ts s e w) = snd (get_tour_availabilities up' fid ts s e w')"
proof -
  obtain w1 r1 where f: "fetch_months up fid (months_of s e) Map.empty w = (w1, r1)"
    by (cases "fetch_months up fid (months_of s e) Map.empty w")
  obtain w1' r1' where f': "fetch_months up' fid (months_of s e) Map.empty w' = (w1', r1')"
    by (cases "fetch_months up' fid (months_of s e) Map.empty w'")
  from fetch_months_cong[OF assms, of Map.empty w w'] f f' have r: "r1' = r1" by simp
  show ?thesis
  proof (cases r1)
    case (Inl err)
    with f f' r show ?thesis by (simp add: get_tour_availabilities_def)
  next
    case (Inr api)
    with f f' r collapse_snd[of api fid "desired_dates s e" ts "[]" w1 w1'] show ?thesis
      by (simp add: get_tour_availabilities_def)
  qed
qed

section \<open>Runs of the example service\<close>


lemma example_months:
  "months_of (Datetime 2024 3 30) (Datetime 2024 4 1) = [Datetime 2024 3 1, Datetime 2024 4 1]"
  by code_simp

lemma example_months_ok:
  "month_query_ok facility_7 7 (Datetime 2024 3 1)" "month_query_ok facility_7 7 (Datetime 2024 4 1)"
  by code_simp+

text \<open>The same request with an end date for which the snapshot has no entry.\<close>

lemma example_missing_date:
  "get_tour_availabilities facility_7 7 [100, 200] (Datetime 2024 3 30) (Datetime 2024 4 2) fresh =
     (\<lparr>sent = [month_request 7 (Datetime 2024 3 1), month_request 7 (Datetime 2024 4 1)],
       stdout = []\<rparr>,
      Inl (KeyError ''2024-04-02''))"
  by code_simp

text \<open>A range over May and June 2024, for which the service fails.\<close>

lemma example_failing_month:
  "get_tour_availabilities facility_7 7 [100] (Datetime 2024 5 30) (Datetime 2024 6 2) fresh =
     (\<lparr>sent = [month_request 7 (Datetime 2024 5 1)], stdout = []\<rparr>,
      Inl (failedRequest (month_request 7 (Datetime 2024 5 1)) server_error))"
  by code_simp

lemma example_two_months:
  "remdups (map year_month (desired_dates (Datetime 2024 5 30) (Datetime 2024 6 2))) =
     [(2024, 5), (2024, 6)]"
  by code_simp





lemma example_script:
  "script facility_7 7 [100] (Datetime 2024 3 30) (Datetime 2024 4 1) fresh =
     (\<lparr>sent = [month_request 7 (Datetime 2024 3 1), month_request 7 (Datetime 2024 4 1),
               tour_request 100],
       stdout = [''Cave Tour: Available on the following date(s):'' @ [CHR 0x0A]
                   @ ''2024-03-30, 2024-03-31'']\<rparr>,
      SystemExit 0)"
  by code_simp

lemma example_script_failing:
  "script facility_7 7 [100] (Datetime 2024 5 1) (Datetime 2024 5 2) fresh =
     (\<lparr>sent = [month_request 7 (Datetime 2024 5 1)], stdout = [''Something went wrong'']\<rparr>,
      Uncaught (failedRequest (month_request 7 (Datetime 2024 5 1)) server_error))"
  by code_simp

lemma example_failing_status: "status_code (facility_7 (month_request 7 (Datetime 2024 5 1))) = 500"
  by code_simp


lemma example_name: "display_name facility_7 100 = ''Cave Tour''"
  by code_simp

section \<open>Properties of the resolver's result\<close>









lemma example_dates_ok: "date_ok (Datetime 2024 3 30)" "date_ok (Datetime 2024 4 1)"
  by (simp_all add: date_ok_def cal_ok_def days_in_month_def)


section \<open>The monthly queries\<close>

text \<open>
  C2, as stated, fails when a query fails: the range from 2024-05-30 to 2024-06-02 touches
  two months, and the resolver issues one query, for May, because the service answers it
  with status 500 and the resolution stops there.
\<close>

theorem monthly_queries_counterexample:
  "date_le (Datetime 2024 5 30) (Datetime 2024 6 2) \<and>
   remdups (map year_month (desired_dates (Datetime 2024 5 30) (Datetime 2024 6 2))) =
     [(2024, 5), (2024, 6)] \<and>
   sent (fst (get_tour_availabilities facility_7 7 [100] (Datetime 2024 5 30) (Datetime 2024 6 2) fresh))
     = [month_request 7 (Datetime 2024 5 1)]"
  by (simp add: example_failing_month example_two_months date_le_def)

text \<open>
  C2, amended. For every date range with start \<open>\<le>\<close> end (both dates a datetime can hold),
  the months the resolver sets out to query are the distinct (year, month) pairs touched
  by the range, one each, in chronological order: one month for a range inside a month,
  \<open>k\<close> months for a range over \<open>k\<close> calendar months. The queries it issues are those of
  these months, in that order, up to and including the first one the service does not
  answer usably; when every query is answered usably, exactly one query per month has
  been issued when the resolver ends.
\<close>

theorem monthly_queries_one_per_month:
  assumes "date_ok start_date" "date_ok end_date" "date_le start_date end_date"
  shows "set (map year_month (months_of start_date end_date))
           = year_month ` set (desired_dates start_date end_date) \<and>
         distinct (map year_month (months_of start_date end_date)) \<and>
         sorted_wrt date_less (months_of start_date end_date) \<and>
         length (months_of start_date end_date)
           = card (year_month ` set (desired_dates start_date end_date)) \<and>
         sent (fst (get_tour_availabilities up facility_id tour_ids start_date end_date w)) =
           sent w @ map (month_request facility_id)
             (takeWhile (month_query_ok up facility_id) (months_of start_date end_date) @
              take 1 (dropWhile (month_query_ok up facility_id) (months_of start_date end_date))) \<and>
         ((\<forall>m\<in>set (months_of start_date end_date). month_query_ok up facility_id m) \<longrightarrow>
            sent (fst (get_tour_availabilities up facility_id tour_ids start_date end_date w)) =
              sent w @ map (month_request facility_id) (months_of start_date end_date))"
proof -
  from assms(1,2) have c: "cal_ok start_date" "cal_ok end_date" by (simp_all add: date_ok_def)
  let ?ms = "months_of start_date end_date"
  have s: "sent (fst (get_tour_availabilities up facility_id tour_ids start_date end_date w)) =
           sent w @ map (month_request facility_id)
             (takeWhile (month_query_ok up facility_id) ?ms @
              take 1 (dropWhile (month_query_ok up facility_id) ?ms))"
    by (simp only: get_tour_availabilities_sent fetch_months_sent)
  have all: "takeWhile (month_query_ok up facility_id) ?ms @
      take 1 (dropWhile (month_query_ok up facility_id) ?ms) = ?ms"
    if "\<forall>m\<in>set ?ms. month_query_ok up facility_id m"
    using that by (simp add: takeWhile_eq_all_conv[THEN iffD2] dropWhile_eq_Nil_conv[THEN iffD2])
  have full: "(\<forall>m\<in>set ?ms. month_query_ok up facility_id m) \<longrightarrow>
            sent (fst (get_tour_availabilities up facility_id tour_ids start_date end_date w)) =
              sent w @ map (month_request facility_id) ?ms"
  proof
    assume a: "\<forall>m\<in>set ?ms. month_query_ok up facility_id m"
    show "sent (fst (get_tour_availabilities up facility_id tour_ids start_date end_date w)) =
              sent w @ map (month_request facility_id) ?ms"
      unfolding s all[OF a] ..
  qed
  show ?thesis
    by (intro conjI months_of_touched[OF c assms(3)] months_of_distinct[OF c]
        months_of_increasing[OF c] months_of_count[OF c assms(3)] s full)
qed

theorem monthly_queries_one_per_month_witness:
  "date_ok (Datetime 2024 3 30) \<and> date_ok (Datetime 2024 4 1) \<and>
   date_le (Datetime 2024 3 30) (Datetime 2024 4 1) \<and>
   months_of (Datetime 2024 3 30) (Datetime 2024 4 1) = [Datetime 2024 3 1, Datetime 2024 4 1] \<and>
   card (year_month ` set (desired_dates (Datetime 2024 3 30) (Datetime 2024 4 1))) = 2 \<and>
   sent (fst (get_tour_availabilities facility_7 7 [100, 200] (Datetime 2024 3 30) (Datetime 2024 4 1) fresh))
     = sent fresh @ map (month_request 7) [Datetime 2024 3 1, Datetime 2024 4 1]"
proof -
  have le: "date_le (Datetime 2024 3 30) (Datetime 2024 4 1)" by (simp add: date_le_def)
  have ok: "\<forall>m\<in>set (months_of (Datetime 2024 3 30) (Datetime 2024 4 1)). month_query_ok facility_7 7 m"
    unfolding example_months using example_months_ok by simp
  note t = monthly_queries_one_per_month[OF example_dates_ok le, of facility_7 7 "[100, 200]" fresh]
  have n: "length (months_of (Datetime 2024 3 30) (Datetime 2024 4 1))
           = card (year_month ` set (desired_dates (Datetime 2024 3 30) (Datetime 2024 4 1)))"
    by (rule t[THEN conjunct2, THEN conjunct2, THEN conjunct2, THEN conjunct1])
  have q: "sent (fst (get_tour_availabilities facility_7 7 [100, 200] (Datetime 2024 3 30) (Datetime 2024 4 1) fresh))
     = sent fresh @ map (month_request 7) (months_of (Datetime 2024 3 30) (Datetime 2024 4 1))"
    by (rule t[THEN conjunct2, THEN conjunct2, THEN conjunct2, THEN conjunct2, THEN conjunct2,
          THEN mp, OF ok])
  have "card (year_month ` set (desired_dates (Datetime 2024 3 30) (Datetime 2024 4 1))) = 2"
    using n unfolding example_months by simp
  moreover note q[unfolded example_months] example_months example_dates_ok le
  ultimately show ?thesis by (intro conjI)
qed

section \<open>A range whose end is before its start\<close>






section \<open>A date missing from the snapshot\<close>

lemma missing_date_aborts:
  assumes "d \<in> set dates" "api (strftime d) = None" "t \<in> set ts"
  shows "\<exists>w' k. collapse api fid dates ts av w = (w', Inl (KeyError k))"
proof -
  from assms(2) have "\<not> readable api t (strftime d)" by (simp add: readable_cases)
  with assms(1,3) have "\<not> (\<forall>t\<in>set ts. \<forall>d\<in>set dates. readable api t (strftime d))" by blast
  then show ?thesis by (rule collapse_unreadable)
qed

text \<open>
  C1. The code does not do this. With tours 100 and 200 and the range from 2024-03-30 to
  2024-04-02, where the snapshot has no entry for 2024-04-02, the resolver raises
  \<^verbatim>\<open>KeyError\<close> for the missing date string while it works on the first tour: no result
  is returned and no "not found" line is printed, not even the one for tour 200 on
  2024-03-31, which the same request prints when the range ends on 2024-04-01.
\<close>

theorem missing_date_raises_KeyError:
  "get_tour_availabilities facility_7 7 [100, 200] (Datetime 2024 3 30) (Datetime 2024 4 2) fresh =
     (\<lparr>sent = [month_request 7 (Datetime 2024 3 1), month_request 7 (Datetime 2024 4 1)],
       stdout = []\<rparr>,
      Inl (KeyError ''2024-04-02''))"
  by (rule example_missing_date)

section \<open>The exit code\<close>



section \<open>A failed request\<close>

text \<open>
  C6, as stated, fails on the exit status. When the monthly query for May 2024 is
  answered with status 500, the error reaches the interpreter uncaught, and the process
  ends with status 1, the number the normal path uses for "no availability".
\<close>

theorem failed_request_counterexample:
  "status_code (facility_7 (month_request 7 (Datetime 2024 5 1))) = 500 \<and>
   snd (script facility_7 7 [100] (Datetime 2024 5 1) (Datetime 2024 5 2) fresh) =
     Uncaught (failedRequest (month_request 7 (Datetime 2024 5 1)) server_error) \<and>
   exit_status (snd (script facility_7 7 [100] (Datetime 2024 5 1) (Datetime 2024 5 2) fresh)) = 1"
  unfolding example_script_failing example_failing_status by simp

text \<open>
  C6, amended. For every run, a request answered with a status other than 200 aborts the
  run with the \<^verbatim>\<open>RuntimeError\<close> of \<^verbatim>\<open>send_request\<close> for that request: it is the last
  request sent (nothing is retried or sent after it, and every earlier request was answered
  with 200); \<^verbatim>\<open>main\<close> returns no exit code; when the request belongs to the resolution,
  the resolver returns no result; the error reaches the top level, which prints
  "Something went wrong" and raises it again, so the process ends through the uncaught
  exception (not through \<^verbatim>\<open>sys.exit\<close>) with the interpreter's status for it, 1: non-zero,
  but the same number as the normal path's "no availability".
\<close>

theorem failed_request_aborts_run:
  assumes "sent (fst (script up facility tours start_date end_date w)) = sent w @ new"
    and "rq \<in> set new" and "status_code (up rq) \<noteq> 200"
  shows "rq = last new \<and> (\<forall>q\<in>set (butlast new). status_code (up q) = 200) \<and>
         snd (main up facility tours start_date end_date w) = Inl (failedRequest rq (up rq)) \<and>
         snd (script up facility tours start_date end_date w) = Uncaught (failedRequest rq (up rq)) \<and>
         stdout (fst (script up facility tours start_date end_date w)) =
           stdout (fst (main up facility tours start_date end_date w)) @ [''Something went wrong''] \<and>
         exit_status (snd (script up facility tours start_date end_date w)) = 1 \<and>
         (rq \<in> set (drop (length (sent w))
                     (sent (fst (get_tour_availabilities up facility tours start_date end_date w))))
            \<longrightarrow> snd (get_tour_availabilities up facility tours start_date end_date w) =
                   Inl (failedRequest rq (up rq)))"
proof -
  from main_stops[of up facility tours start_date end_date w] obtain n where
    n: "sent (fst (main up facility tours start_date end_date w)) = sent w @ n"
       "stops_at_failure up n (snd (main up facility tours start_date end_date w))"
    by blast
  from n(1) assms(1) have "n = new" by (simp add: script_sent)
  with n(2) have st: "stops_at_failure up new (snd (main up facility tours start_date end_date w))"
    by simp
  from stops_at_failure_result[OF st assms(2,3)]
  have l: "rq = last new"
    and m: "snd (main up facility tours start_date end_date w) = Inl (failedRequest rq (up rq))"
    by simp_all
  from st have b: "\<forall>q\<in>set (butlast new). status_code (up q) = 200"
    by (simp add: stops_at_failure_def)
  have g: "snd (get_tour_availabilities up facility tours start_date end_date w) =
                   Inl (failedRequest rq (up rq))"
    if "rq \<in> set (drop (length (sent w))
                     (sent (fst (get_tour_availabilities up facility tours start_date end_date w))))"
  proof -
    from get_tour_availabilities_stops[of up facility tours start_date end_date w] obtain k where
      k: "sent (fst (get_tour_availabilities up facility tours start_date end_date w)) = sent w @ k"
         "stops_at_failure up k (snd (get_tour_availabilities up facility tours start_date end_date w))"
      by blast
    from that k(1) have "rq \<in> set k" by simp
    from stops_at_failure_result[OF k(2) this assms(3)] show ?thesis by simp
  qed
  from l b m script_Inl[OF m] g show ?thesis by simp
qed

theorem failed_request_aborts_run_witness:
  "sent (fst (script facility_7 7 [100] (Datetime 2024 5 1) (Datetime 2024 5 2) fresh)) =
     sent fresh @ [month_request 7 (Datetime 2024 5 1)] \<and>
   month_request 7 (Datetime 2024 5 1) \<in> set [month_request 7 (Datetime 2024 5 1)] \<and>
   status_code (facility_7 (month_request 7 (Datetime 2024 5 1))) \<noteq> 200 \<and>
   snd (main facility_7 7 [100] (Datetime 2024 5 1) (Datetime 2024 5 2) fresh) =
     Inl (failedRequest (month_request 7 (Datetime 2024 5 1))
            (facility_7 (month_request 7 (Datetime 2024 5 1)))) \<and>
   exit_status (snd (script facility_7 7 [100] (Datetime 2024 5 1) (Datetime 2024 5 2) fresh)) = 1"
proof -
  have a: "sent (fst (script facility_7 7 [100] (Datetime 2024 5 1) (Datetime 2024 5 2) fresh)) =
     sent fresh @ [month_request 7 (Datetime 2024 5 1)]"
    by (subst example_script_failing) (simp add: fresh_def)
  have b: "month_request 7 (Datetime 2024 5 1) \<in> set [month_request 7 (Datetime 2024 5 1)]"
    by simp
  have c: "status_code (facility_7 (month_request 7 (Datetime 2024 5 1))) \<noteq> 200"
    unfolding example_failing_status by simp
  note t = failed_request_aborts_run[OF a b c]
  from a b c t[THEN conjunct2, THEN conjunct2, THEN conjunct1]
    t[THEN conjunct2, THEN conjunct2, THEN conjunct2, THEN conjunct2, THEN conjunct2, THEN conjunct1]
  show ?thesis by (intro conjI)
qed

section \<open>A failed name lookup\<close>




section \<open>Determinism\<close>

text \<open>
  C8. The resolver's result is a function of its inputs and of the service's answers to
  the monthly queries of the range: two calls with the same facility, tours and dates,
  against services that answer those queries alike, return equal results, whatever was
  sent or printed before each call. In particular a second call, made after the first
  against the unchanged service, returns what the first returned.
\<close>

theorem resolver_is_deterministic:
  assumes "\<forall>m\<in>set (months_of start_date end_date).
             up (month_request facility_id m) = up' (month_request facility_id m)"
  shows "snd (get_tour_availabilities up facility_id tour_ids start_date end_date w) =
         snd (get_tour_availabilities up' facility_id tour_ids start_date end_date w')"
  using assms by (rule get_tour_availabilities_cong)

theorem resolver_is_deterministic_witness:
  "snd (get_tour_availabilities facility_7 7 [100, 200] (Datetime 2024 3 30) (Datetime 2024 4 1) fresh) =
   snd (get_tour_availabilities facility_7 7 [100, 200] (Datetime 2024 3 30) (Datetime 2024 4 1)
     (fst (get_tour_availabilities facility_7 7 [100, 200] (Datetime 2024 3 30) (Datetime 2024 4 1) fresh)))"
proof -
  have "\<forall>m\<in>set (months_of (Datetime 2024 3 30) (Datetime 2024 4 1)).
      facility_7 (month_request 7 m) = facility_7 (month_request 7 m)"
    by simp
  then show ?thesis by (rule resolver_is_deterministic)
qed

end
